theory Spec2Isabelle
  imports Main "HOL-Library.Sublist" "HOL-Library.Multiset"
begin

section \<open>Strings and bytes\<close>

text \<open>
  A Go \<open>string\<close> is a read-only sequence of bytes; it is modelled as a \<open>char list\<close>
  (an Isabelle \<open>char\<close> is one byte). The library functions below decode UTF-8 where Go
  does; every code point they treat specially is given by its UTF-8 encoding.
\<close>

abbreviation byte :: "char \<Rightarrow> nat" where
  "byte \<equiv> of_char"

section \<open>package regexp: the fragment the pattern uses\<close>

text \<open>
  The syntax tree of a pattern. \<open>Rep1\<close> is \<open>[class]{1,}\<close>: the only repetition of the
  pattern is over a character class. A capture group does not change what
  \<open>FindString\<close> returns, so it has no constructor.
\<close>

datatype re =
    Lit char
  | Class "char \<Rightarrow> bool"
  | Opt re
  | Rep1 "char \<Rightarrow> bool"
  | Cat re re
  | EndText

text \<open>
  Leftmost-first (Perl-like) matching, which is what package \<open>regexp\<close> implements when
  the pattern is not compiled as POSIX: \<open>run r s k\<close> matches \<open>r\<close> at the start of
  \<open>s\<close> and hands the rest of the text to the continuation \<open>k\<close>; the alternatives are
  tried in order of preference (\<open>x?\<close> prefers one \<open>x\<close> to none, \<open>{1,}\<close> prefers more
  repetitions to fewer), and the first one that succeeds wins. \<open>$\<close> without the
  \<open>m\<close> flag matches at the end of the text only.
\<close>

fun run :: "re \<Rightarrow> string \<Rightarrow> (string \<Rightarrow> string option) \<Rightarrow> string option" where
  "run (Lit c) s k = (case s of [] \<Rightarrow> None | x # xs \<Rightarrow> if x = c then k xs else None)"
| "run (Class P) s k = (case s of [] \<Rightarrow> None | x # xs \<Rightarrow> if P x then k xs else None)"
| "run (Opt r) s k = (case run r s k of Some t \<Rightarrow> Some t | None \<Rightarrow> k s)"
| "run (Rep1 P) [] k = None"
| "run (Rep1 P) (x # xs) k =
     (if P x then (case run (Rep1 P) xs k of Some t \<Rightarrow> Some t | None \<Rightarrow> k xs) else None)"
| "run (Cat a b) s k = run a s (\<lambda>s'. run b s' k)"
| "run EndText s k = (if s = [] then k s else None)"

text \<open>
  \<open>(*Regexp).FindString\<close>: the text of the leftmost match, and the empty string when
  there is no match. The start positions are tried from the left; at each one the
  preferred match is taken.
\<close>

fun FindString :: "re \<Rightarrow> string \<Rightarrow> string" where
  "FindString r [] = (case run r [] Some of Some rest \<Rightarrow> [] | None \<Rightarrow> [])"
| "FindString r (x # xs) =
     (case run r (x # xs) Some of
        Some rest \<Rightarrow> take (length (x # xs) - length rest) (x # xs)
      | None \<Rightarrow> FindString r xs)"

text \<open>The Perl class \<open>\s\<close> of package \<open>regexp/syntax\<close>: \<open>[\t\n\f\r ]\<close>.\<close>

definition perlSpace :: "char \<Rightarrow> bool" where
  "perlSpace c \<longleftrightarrow> byte c = 0x09 \<or> byte c = 0x0A \<or> byte c = 0x0C \<or> byte c = 0x0D \<or> byte c = 0x20"

text \<open>
  The bracket expression \<open>[\s?a-zA-Z\.]\<close>. Inside brackets \<open>?\<close> is a literal
  question mark and \<open>\.\<close> a literal period. Every member is an ASCII byte, and the
  bytes of a multi-byte or invalid UTF-8 sequence are all at least 0x80, so matching
  byte by byte is matching rune by rune.
\<close>

definition nameClass :: "char \<Rightarrow> bool" where
  "nameClass c \<longleftrightarrow>
     perlSpace c \<or> c = CHR ''?''
     \<or> (byte (CHR ''a'') \<le> byte c \<and> byte c \<le> byte (CHR ''z''))
     \<or> (byte (CHR ''A'') \<le> byte c \<and> byte c \<le> byte (CHR ''Z''))
     \<or> c = CHR ''.''"

section \<open>package strings\<close>

definition HasPrefix :: "string \<Rightarrow> string \<Rightarrow> bool" where
  "HasPrefix s p \<longleftrightarrow> length p \<le> length s \<and> take (length p) s = p"

definition HasSuffix :: "string \<Rightarrow> string \<Rightarrow> bool" where
  "HasSuffix s x \<longleftrightarrow> length x \<le> length s \<and> drop (length s - length x) s = x"

definition TrimPrefix :: "string \<Rightarrow> string \<Rightarrow> string" where
  "TrimPrefix s p = (if HasPrefix s p then drop (length p) s else s)"

definition TrimSuffix :: "string \<Rightarrow> string \<Rightarrow> string" where
  "TrimSuffix s x = (if HasSuffix s x then take (length s - length x) s else s)"

text \<open>
  White space as \<open>unicode.IsSpace\<close> defines it: the six ASCII bytes
  \<open>\t \n \v \f \r\<close> and space, and the code points U+0085, U+00A0, U+1680,
  U+2000 to U+200A, U+2028, U+2029, U+202F, U+205F and U+3000, here in UTF-8.
\<close>

definition asciiSpace :: "char \<Rightarrow> bool" where
  "asciiSpace c \<longleftrightarrow> 0x09 \<le> byte c \<and> byte c \<le> 0x0D \<or> byte c = 0x20"

definition unicodeSpaces :: "string list" where
  "unicodeSpaces =
     [[CHR 0xC2, CHR 0x85], [CHR 0xC2, CHR 0xA0], [CHR 0xE1, CHR 0x9A, CHR 0x80]]
     @ map (\<lambda>n. [CHR 0xE2, CHR 0x80, char_of (n::nat)]) [0x80 ..< 0x8B]
     @ [[CHR 0xE2, CHR 0x80, CHR 0xA8], [CHR 0xE2, CHR 0x80, CHR 0xA9],
        [CHR 0xE2, CHR 0x80, CHR 0xAF], [CHR 0xE2, CHR 0x81, CHR 0x9F],
        [CHR 0xE3, CHR 0x80, CHR 0x80]]"

text \<open>
  \<open>spaceLen s\<close> is the number of bytes of the white-space rune that \<open>s\<close> begins with,
  and 0 when \<open>s\<close> begins with no such rune; \<open>spaceLenR s\<close> is the same for the rune
  that \<open>s\<close> ends with. Each encoding above is a valid shortest-form sequence, and a lead
  byte always starts a new rune, so decoding forwards (\<open>DecodeRuneInString\<close>) or
  backwards (\<open>DecodeLastRuneInString\<close>) yields a white-space rune exactly where the
  bytes are one of these sequences.
\<close>

definition spaceLen :: "string \<Rightarrow> nat" where
  "spaceLen s =
     (case s of [] \<Rightarrow> 0
      | c # _ \<Rightarrow> if asciiSpace c then 1
                else (case find (\<lambda>q. prefix q s) unicodeSpaces of
                        None \<Rightarrow> 0 | Some q \<Rightarrow> length q))"

definition spaceLenR :: "string \<Rightarrow> nat" where
  "spaceLenR s =
     (if s = [] then 0
      else if asciiSpace (last s) then 1
      else (case find (\<lambda>q. suffix q s) unicodeSpaces of
              None \<Rightarrow> 0 | Some q \<Rightarrow> length q))"

lemma find_SomeD: "find P xs = Some x \<Longrightarrow> P x \<and> x \<in> set xs"
  by (induction xs) (auto split: if_splits)

lemma spaceLen_le: "spaceLen s \<le> length s"
  by (auto simp: spaceLen_def split: list.splits option.splits
      dest!: find_SomeD dest: prefix_length_le)

lemma spaceLenR_le: "spaceLenR s \<le> length s"
  by (cases s) (auto simp: spaceLenR_def split: option.splits
      dest!: find_SomeD dest: suffix_length_le)

text \<open>\<open>TrimLeftFunc(s, unicode.IsSpace)\<close> and \<open>TrimRightFunc(s, unicode.IsSpace)\<close>.\<close>

function TrimLeftSpace :: "string \<Rightarrow> string" where
  "TrimLeftSpace s = (if spaceLen s = 0 then s else TrimLeftSpace (drop (spaceLen s) s))"
  by pat_completeness auto
termination
proof (relation "measure length")
  show "wf (measure length)" by simp
next
  fix s :: string
  assume "spaceLen s \<noteq> 0"
  moreover have "spaceLen s \<le> length s" by (rule spaceLen_le)
  ultimately show "(drop (spaceLen s) s, s) \<in> measure length" by simp
qed

function TrimRightSpace :: "string \<Rightarrow> string" where
  "TrimRightSpace s =
     (if spaceLenR s = 0 then s else TrimRightSpace (take (length s - spaceLenR s) s))"
  by pat_completeness auto
termination
proof (relation "measure length")
  show "wf (measure length)" by simp
next
  fix s :: string
  assume "spaceLenR s \<noteq> 0"
  moreover have "spaceLenR s \<le> length s" by (rule spaceLenR_le)
  ultimately show "(take (length s - spaceLenR s) s, s) \<in> measure length" by simp
qed

declare TrimLeftSpace.simps [simp del] TrimRightSpace.simps [simp del]

text \<open>
  \<open>strings.TrimSpace\<close>: leading white space is removed first, then trailing white
  space (the ASCII fast path of the Go function removes the same bytes).
\<close>

definition TrimSpace :: "string \<Rightarrow> string" where
  "TrimSpace s = TrimRightSpace (TrimLeftSpace s)"

text \<open>
  \<open>strings.EqualFold(s, t)\<close> for a \<open>t\<close> of ASCII bytes, which is how the code calls it.
  Two ASCII bytes are equal under simple case folding when they are the same or an
  upper-case letter and its lower-case form. A rune of \<open>s\<close> beyond ASCII equals an ASCII
  byte only in the two cases of Unicode's folding orbits that leave ASCII:
  U+212A (Kelvin sign) with k and K, U+017F (long s) with s and S. Any other
  non-ASCII byte of \<open>s\<close>, valid UTF-8 or not, makes the strings differ.
\<close>

definition foldEqASCII :: "char \<Rightarrow> char \<Rightarrow> bool" where
  "foldEqASCII a b \<longleftrightarrow>
     a = b \<or>
     (let sr = min (byte a) (byte b); tr = max (byte a) (byte b)
      in byte (CHR ''A'') \<le> sr \<and> sr \<le> byte (CHR ''Z'') \<and> tr = sr + 32)"

fun EqualFold :: "string \<Rightarrow> string \<Rightarrow> bool" where
  "EqualFold [] [] = True"
| "EqualFold [] (b # t) = False"
| "EqualFold (a # s) [] = False"
| "EqualFold (a # s) (b # t) =
     (if byte a < 0x80 then foldEqASCII a b \<and> EqualFold s t
      else if a = CHR 0xE2 \<and> take 2 s = [CHR 0x84, CHR 0xAA] \<and> (b = CHR ''k'' \<or> b = CHR ''K'')
        then EqualFold (drop 2 s) t
      else if a = CHR 0xC5 \<and> take 1 s = [CHR 0xBF] \<and> (b = CHR ''s'' \<or> b = CHR ''S'')
        then EqualFold (drop 1 s) t
      else False)"

section \<open>package prepare: pipeline\_reorder.go\<close>

text \<open>The package variable \<open>surnamePrecedes\<close>, compiled from \<open>(,?[\s?a-zA-Z\.]{1,})$\<close>.\<close>

definition surnamePrecedes :: re where
  "surnamePrecedes = Cat (Cat (Opt (Lit (CHR '',''))) (Rep1 nameClass)) EndText"

text \<open>
  \<open>ReorderSDNName\<close>; \<open>fmt.Sprintf("%s %s", a, b)\<close> is \<open>a\<close>, one space, \<open>b\<close>.
\<close>

definition ReorderSDNName :: "string \<Rightarrow> string \<Rightarrow> string" where
  "ReorderSDNName name tpe =
     (if \<not> EqualFold tpe ''individual'' then name
      else let v = FindString surnamePrecedes name
           in if v = [] then name
              else TrimSpace (TrimPrefix v '','' @ '' '' @ TrimSuffix name v))"

text \<open>
  The only state of the package is the variable \<open>surnamePrecedes\<close>; the source
  assigns it once, at initialisation, and the function reads it. \<open>ReorderSDNName_in\<close>
  is the function with that state passed in and handed back, and \<open>calls\<close> runs a
  sequence of calls, threading the state through them.
\<close>

record package_vars =
  var_surnamePrecedes :: re

definition package_init :: package_vars where
  "package_init = \<lparr>var_surnamePrecedes = surnamePrecedes\<rparr>"

definition ReorderSDNName_in :: "package_vars \<Rightarrow> string \<Rightarrow> string \<Rightarrow> string \<times> package_vars" where
  "ReorderSDNName_in g name tpe =
     (if \<not> EqualFold tpe ''individual'' then (name, g)
      else let v = FindString (var_surnamePrecedes g) name
           in if v = [] then (name, g)
              else (TrimSpace (TrimPrefix v '','' @ '' '' @ TrimSuffix name v), g))"

fun calls :: "package_vars \<Rightarrow> (string \<times> string) list \<Rightarrow> string list \<times> package_vars" where
  "calls g [] = ([], g)"
| "calls g ((name, tpe) # cs) =
     (let (r, g') = ReorderSDNName_in g name tpe;
          (rs, g'') = calls g' cs
      in (r # rs, g''))"

section \<open>Notions the properties are stated with\<close>

text \<open>
  ASCII lower-casing of one byte. A type string is \<open>''individual''\<close> up to case when
  lower-casing each of its bytes gives \<open>''individual''\<close>.
\<close>

definition asciiLower :: "char \<Rightarrow> char" where
  "asciiLower c =
     (if byte (CHR ''A'') \<le> byte c \<and> byte c \<le> byte (CHR ''Z'') then char_of (byte c + 32) else c)"

text \<open>
  The letters of the pattern, \<open>a-z\<close> and \<open>A-Z\<close>, and the characters a plain name is
  made of: these letters, the white space of \<open>\s\<close> and the period.
\<close>

definition asciiLetter :: "char \<Rightarrow> bool" where
  "asciiLetter c \<longleftrightarrow>
     (byte (CHR ''a'') \<le> byte c \<and> byte c \<le> byte (CHR ''z''))
     \<or> (byte (CHR ''A'') \<le> byte c \<and> byte c \<le> byte (CHR ''Z''))"

definition nameChar :: "char \<Rightarrow> bool" where
  "nameChar c \<longleftrightarrow> asciiLetter c \<or> perlSpace c \<or> c = CHR ''.''"

text \<open>
  The suffix the pattern is described as looking for: an optional comma followed by one
  or more of these characters. \<open>hasNameSuffix name\<close>: some suffix of the name has
  that form.
\<close>

definition nameSuffix :: "string \<Rightarrow> bool" where
  "nameSuffix v \<longleftrightarrow>
     (case v of [] \<Rightarrow> False
      | x # w \<Rightarrow> if x = CHR '','' then w \<noteq> [] \<and> list_all nameChar w
                 else list_all nameChar (x # w))"

definition hasNameSuffix :: "string \<Rightarrow> bool" where
  "hasNameSuffix name \<longleftrightarrow> list_ex nameSuffix (suffixes name)"

text \<open>
  \<open>matchesHere s\<close>: the whole of \<open>s\<close> is an optional comma followed by one or more
  bytes of the bracket expression, which is what the pattern asks of a suffix.
\<close>

definition matchesHere :: "string \<Rightarrow> bool" where
  "matchesHere s \<longleftrightarrow>
     (s \<noteq> [] \<and> list_all nameClass s)
     \<or> (case s of [] \<Rightarrow> False | x # xs \<Rightarrow> x = CHR '','' \<and> xs \<noteq> [] \<and> list_all nameClass xs)"

text \<open>
  UTF-8 continuation bytes, the byte sequences that encode one white-space rune, and
  the length of a sequence as its lead byte announces it.
\<close>

definition contByte :: "char \<Rightarrow> bool" where
  "contByte c \<longleftrightarrow> 0x80 \<le> byte c \<and> byte c < 0xC0"

definition spaceSeq :: "string \<Rightarrow> bool" where
  "spaceSeq q \<longleftrightarrow> (case q of [c] \<Rightarrow> asciiSpace c | _ \<Rightarrow> False) \<or> q \<in> set unicodeSpaces"

definition leadLen :: "char \<Rightarrow> nat" where
  "leadLen c = (if byte c < 0x80 then 1 else if byte c < 0xE0 then 2 else 3)"

text \<open>
  \<open>content s\<close>: the bytes of \<open>s\<close>, in order, that belong neither to a white-space
  rune nor to a comma.
\<close>

function content :: "string \<Rightarrow> string" where
  "content s =
     (if s = [] then []
      else if spaceLen s \<noteq> 0 then content (drop (spaceLen s) s)
      else if hd s = CHR '','' then content (tl s)
      else hd s # content (tl s))"
  by pat_completeness auto
termination
proof (relation "measure length")
  show "wf (measure length)" by simp
next
  fix s :: string
  assume "s \<noteq> []" "spaceLen s \<noteq> 0"
  then show "(drop (spaceLen s) s, s) \<in> measure length" by simp
next
  fix s :: string
  assume "s \<noteq> []"
  then show "(tl s, s) \<in> measure length" by simp
next
  fix s :: string
  assume "s \<noteq> []"
  then show "(tl s, s) \<in> measure length" by simp
qed

declare content.simps [simp del]

section \<open>The pattern, characterised\<close>

lemma run_Rep1_end:
  "run (Rep1 P) s (\<lambda>s'. if s' = [] then Some s' else None) =
     (if s \<noteq> [] \<and> list_all P s then Some [] else None)"
proof (induction s)
  case Nil
  show ?case by simp
next
  case (Cons x xs)
  show ?case
  proof (cases "P x")
    case False
    then show ?thesis by simp
  next
    case True
    show ?thesis
    proof (cases "xs = []")
      case True
      with \<open>P x\<close> show ?thesis by simp
    next
      case False
      with \<open>P x\<close> Cons.IH show ?thesis by simp
    qed
  qed
qed

lemma comma_not_nameClass: "\<not> nameClass (CHR '','')"
  by (simp add: nameClass_def perlSpace_def)

lemma run_surnamePrecedes:
  "run surnamePrecedes s Some = (if matchesHere s then Some [] else None)"
proof (cases s)
  case Nil
  then show ?thesis by (simp add: surnamePrecedes_def matchesHere_def)
next
  case (Cons x xs)
  show ?thesis
  proof (cases "x = CHR '',''")
    case True
    with Cons show ?thesis
      by (simp add: surnamePrecedes_def matchesHere_def run_Rep1_end comma_not_nameClass
          del: run.simps(5))
  next
    case False
    with Cons show ?thesis
      by (simp add: surnamePrecedes_def matchesHere_def run_Rep1_end del: run.simps(5))
  qed
qed

lemma FindString_Nil: "FindString r [] = []"
  by (simp split: option.split)

lemma FindString_surnamePrecedes_Cons:
  "FindString surnamePrecedes (x # xs) =
     (if matchesHere (x # xs) then x # xs else FindString surnamePrecedes xs)"
  by (simp add: run_surnamePrecedes)

declare FindString.simps [simp del]

lemma FindString_sp_shape:
  "(FindString surnamePrecedes name = [] \<and> (name = [] \<or> \<not> nameClass (last name)))
   \<or> (\<exists>p w. name = p @ w \<and> FindString surnamePrecedes name = w \<and> w \<noteq> []
         \<and> list_all nameClass w
         \<and> (p = [] \<or> (\<not> nameClass (last p) \<and> last p \<noteq> CHR '','')))
   \<or> (\<exists>p w. name = p @ CHR '','' # w \<and> FindString surnamePrecedes name = CHR '','' # w
         \<and> w \<noteq> [] \<and> list_all nameClass w)"
  (is "?N name \<or> ?P name \<or> ?C name")
proof (induction name)
  case Nil
  show ?case by (simp add: FindString_Nil)
next
  case (Cons x xs)
  show ?case
  proof (cases "matchesHere (x # xs)")
    case True
    then have v: "FindString surnamePrecedes (x # xs) = x # xs"
      by (simp add: FindString_surnamePrecedes_Cons)
    from True consider "list_all nameClass (x # xs)"
      | "x = CHR '',''" "xs \<noteq> []" "list_all nameClass xs"
      by (auto simp: matchesHere_def)
    then show ?thesis
    proof cases
      case 1
      with v have "?P (x # xs)" by (intro exI [of _ "[]"] exI [of _ "x # xs"]) simp
      then show ?thesis by blast
    next
      case 2
      with v have "?C (x # xs)" by (intro exI [of _ "[]"] exI [of _ xs]) simp
      then show ?thesis by blast
    qed
  next
    case False
    then have v: "FindString surnamePrecedes (x # xs) = FindString surnamePrecedes xs"
      by (simp add: FindString_surnamePrecedes_Cons)
    from Cons.IH consider (n) "?N xs" | (p) "?P xs" | (c) "?C xs" by blast
    then show ?thesis
    proof cases
      case n
      with False v have "?N (x # xs)" by (auto simp: matchesHere_def)
      then show ?thesis by blast
    next
      case p
      then obtain q w where *: "xs = q @ w" "FindString surnamePrecedes xs = w" "w \<noteq> []"
        "list_all nameClass w" "q = [] \<or> (\<not> nameClass (last q) \<and> last q \<noteq> CHR '','')"
        by blast
      have "x # q = [] \<or> (\<not> nameClass (last (x # q)) \<and> last (x # q) \<noteq> CHR '','')"
      proof (cases "q = []")
        case True
        with * False show ?thesis by (auto simp: matchesHere_def)
      next
        case False
        with * show ?thesis by simp
      qed
      with * v have "?P (x # xs)" by (intro exI [of _ "x # q"] exI [of _ w]) simp
      then show ?thesis by blast
    next
      case c
      then obtain q w where *: "xs = q @ CHR '','' # w"
        "FindString surnamePrecedes xs = CHR '','' # w" "w \<noteq> []" "list_all nameClass w"
        by blast
      with v have "?C (x # xs)" by (intro exI [of _ "x # q"] exI [of _ w]) simp
      then show ?thesis by blast
    qed
  qed
qed

text \<open>
  What the pattern finds, in words: a match exists exactly when the name ends in a byte
  of the bracket expression; the match is a suffix of the name made of such bytes
  behind at most one comma. On a name without a question mark the bracket expression
  is letters, white space and the period.
\<close>

lemma nameClass_nameChar: "nameClass c \<longleftrightarrow> nameChar c \<or> c = CHR ''?''"
  by (auto simp: nameClass_def nameChar_def asciiLetter_def)

lemma FindString_sp_empty_iff:
  "FindString surnamePrecedes name = [] \<longleftrightarrow> name = [] \<or> \<not> nameClass (last name)"
proof -
  from FindString_sp_shape [of name] consider
      (N) "FindString surnamePrecedes name = []" "name = [] \<or> \<not> nameClass (last name)"
    | (P) p w where "name = p @ w" "FindString surnamePrecedes name = w" "w \<noteq> []"
        "list_all nameClass w"
    | (C) p w where "name = p @ CHR '','' # w" "FindString surnamePrecedes name = CHR '','' # w"
        "w \<noteq> []" "list_all nameClass w"
    by blast
  then show ?thesis
  proof cases
    case N
    then show ?thesis by simp
  next
    case P
    then have "last name = last w" "last w \<in> set w" by simp_all
    with P show ?thesis by (auto simp: list_all_iff)
  next
    case C
    then have "last name = last w" "last w \<in> set w" by simp_all
    with C show ?thesis by (auto simp: list_all_iff)
  qed
qed

lemma FindString_sp_suffix: "suffix (FindString surnamePrecedes name) name"
  using FindString_sp_shape [of name] by (auto simp: suffix_def)

lemma FindString_sp_chars:
  "c \<in> set (FindString surnamePrecedes name) \<Longrightarrow> nameClass c \<or> c = CHR '',''"
  using FindString_sp_shape [of name] by (auto simp: list_all_iff)

lemma pattern_without_question_mark:
  assumes "CHR ''?'' \<notin> set name"
  shows "FindString surnamePrecedes name \<noteq> [] \<longleftrightarrow> name \<noteq> [] \<and> nameChar (last name)"
    and "c \<in> set (FindString surnamePrecedes name) \<Longrightarrow> nameChar c \<or> c = CHR '',''"
proof -
  from assms have "name \<noteq> [] \<Longrightarrow> last name \<noteq> CHR ''?''" by (metis last_in_set)
  then show "FindString surnamePrecedes name \<noteq> [] \<longleftrightarrow> name \<noteq> [] \<and> nameChar (last name)"
    by (auto simp: FindString_sp_empty_iff nameClass_nameChar)
next
  assume c: "c \<in> set (FindString surnamePrecedes name)"
  with FindString_sp_suffix [of name] have "c \<in> set name" by (auto dest: set_mono_suffix)
  with assms have "c \<noteq> CHR ''?''" by auto
  with FindString_sp_chars [OF c] show "nameChar c \<or> c = CHR '',''"
    by (auto simp: nameClass_nameChar)
qed

section \<open>The type check, characterised\<close>

lemma char_eq_byte: "c = d \<longleftrightarrow> byte c = byte d"
  by simp

lemma foldEqASCII_lower:
  assumes "97 \<le> byte b" "byte b \<le> 122"
  shows "foldEqASCII a b \<longleftrightarrow> asciiLower a = b"
proof (cases "65 \<le> byte a \<and> byte a \<le> 90")
  case True
  then have "asciiLower a = b \<longleftrightarrow> byte b = byte a + 32"
    by (auto simp: asciiLower_def char_eq_byte [of _ b])
  moreover from True assms have "foldEqASCII a b \<longleftrightarrow> byte b = byte a + 32"
    by (auto simp: foldEqASCII_def Let_def min_def max_def)
  ultimately show ?thesis by simp
next
  case False
  with assms show ?thesis
    by (auto simp: foldEqASCII_def asciiLower_def Let_def min_def max_def)
qed

lemma EqualFold_lower:
  "list_all (\<lambda>b. 97 \<le> byte b \<and> byte b \<le> 122 \<and> b \<noteq> CHR ''k'' \<and> b \<noteq> CHR ''s'') u \<Longrightarrow>
   EqualFold t u \<longleftrightarrow> map asciiLower t = u"
proof (induction t u rule: EqualFold.induct)
  case (4 a s b t)
  then have b: "97 \<le> byte b" "byte b \<le> 122" "b \<noteq> CHR ''k''" "b \<noteq> CHR ''s''"
    and u: "list_all (\<lambda>b. 97 \<le> byte b \<and> byte b \<le> 122 \<and> b \<noteq> CHR ''k'' \<and> b \<noteq> CHR ''s'') t"
    by simp_all
  show ?case
  proof (cases "byte a < 0x80")
    case True
    with 4 u foldEqASCII_lower [OF b(1,2), of a] show ?thesis by auto
  next
    case False
    then have "asciiLower a = a" by (simp add: asciiLower_def)
    moreover from False b have "a \<noteq> b" by auto
    moreover from b have "b \<noteq> CHR ''K''" "b \<noteq> CHR ''S''" by auto
    ultimately show ?thesis using False b by simp
  qed
qed simp_all

lemma EqualFold_individual: "EqualFold t ''individual'' \<longleftrightarrow> map asciiLower t = ''individual''"
  by (rule EqualFold_lower) simp

section \<open>White-space runes\<close>

lemma unicodeSpaces_unfold:
  "unicodeSpaces =
     [[CHR 0xC2, CHR 0x85], [CHR 0xC2, CHR 0xA0], [CHR 0xE1, CHR 0x9A, CHR 0x80],
      [CHR 0xE2, CHR 0x80, CHR 0x80], [CHR 0xE2, CHR 0x80, CHR 0x81],
      [CHR 0xE2, CHR 0x80, CHR 0x82], [CHR 0xE2, CHR 0x80, CHR 0x83],
      [CHR 0xE2, CHR 0x80, CHR 0x84], [CHR 0xE2, CHR 0x80, CHR 0x85],
      [CHR 0xE2, CHR 0x80, CHR 0x86], [CHR 0xE2, CHR 0x80, CHR 0x87],
      [CHR 0xE2, CHR 0x80, CHR 0x88], [CHR 0xE2, CHR 0x80, CHR 0x89],
      [CHR 0xE2, CHR 0x80, CHR 0x8A],
      [CHR 0xE2, CHR 0x80, CHR 0xA8], [CHR 0xE2, CHR 0x80, CHR 0xA9],
      [CHR 0xE2, CHR 0x80, CHR 0xAF], [CHR 0xE2, CHR 0x81, CHR 0x9F],
      [CHR 0xE3, CHR 0x80, CHR 0x80]]"
  by code_simp

lemma unicodeSpaces_shape:
  "q \<in> set unicodeSpaces \<Longrightarrow>
     q \<noteq> [] \<and> \<not> contByte (hd q) \<and> 0x80 \<le> byte (hd q) \<and> list_all contByte (tl q)
     \<and> length q = leadLen (hd q)"
  unfolding unicodeSpaces_unfold by (auto simp: contByte_def leadLen_def)

lemma spaceSeq_shape:
  "spaceSeq q \<Longrightarrow>
     q \<noteq> [] \<and> \<not> contByte (hd q) \<and> list_all contByte (tl q) \<and> length q = leadLen (hd q)"
proof -
  assume "spaceSeq q"
  then consider c where "q = [c]" "asciiSpace c" | "q \<in> set unicodeSpaces"
    by (auto simp: spaceSeq_def split: list.splits)
  then show ?thesis
  proof cases
    case 1
    then show ?thesis by (auto simp: contByte_def leadLen_def asciiSpace_def)
  next
    case 2
    then show ?thesis using unicodeSpaces_shape [of q] by simp
  qed
qed

lemma spaceSeq_prefix_unique:
  assumes "spaceSeq q" "spaceSeq q'" "prefix q s" "prefix q' s"
  shows "length q' = length q"
proof -
  from assms(1,2) have "q \<noteq> []" "q' \<noteq> []" by (auto dest: spaceSeq_shape)
  with assms(3,4) have "hd q = hd s" "hd q' = hd s"
    by (cases q; cases q'; cases s; simp)+
  with assms(1,2) show ?thesis by (auto dest!: spaceSeq_shape)
qed

lemma spaceSeq_suffix_unique:
  assumes "spaceSeq q" "spaceSeq q'" "suffix q s" "suffix q' s"
  shows "q' = q"
proof -
  have *: "a = b" if "spaceSeq a" "spaceSeq b" "suffix a b" for a b
  proof (rule ccontr)
    assume "a \<noteq> b"
    with that(3) obtain z where z: "b = z @ a" "z \<noteq> []" by (auto simp: suffix_def)
    from that(1) have "a \<noteq> []" "\<not> contByte (hd a)" by (auto dest: spaceSeq_shape)
    with z have "hd a \<in> set (tl b)" by (cases z; cases a) auto
    moreover from that(2) have "list_all contByte (tl b)" by (auto dest: spaceSeq_shape)
    ultimately have "contByte (hd a)" by (simp add: list_all_iff)
    with \<open>\<not> contByte (hd a)\<close> show False by simp
  qed
  from assms(3,4) have "suffix q q' \<or> suffix q' q" by (rule suffix_same_cases)
  with * assms(1,2) show ?thesis by blast
qed

lemma find_prefix_Some:
  assumes "q \<in> set qs" "P q"
  obtains q' where "find P qs = Some q'" "P q'" "q' \<in> set qs"
proof (cases "find P qs")
  case None
  with assms show ?thesis by (auto simp: find_None_iff)
next
  case (Some q')
  with that show ?thesis by (auto dest: find_SomeD)
qed

lemma spaceLen_prefix:
  assumes "spaceSeq q" "prefix q s"
  shows "spaceLen s = length q"
proof -
  from assms(1) consider c where "q = [c]" "asciiSpace c" | "q \<in> set unicodeSpaces"
    by (auto simp: spaceSeq_def split: list.splits)
  then show ?thesis
  proof cases
    case 1
    with assms(2) show ?thesis by (auto simp: spaceLen_def prefix_def)
  next
    case 2
    then have "q \<noteq> []" "0x80 \<le> byte (hd q)" by (auto dest: unicodeSpaces_shape)
    with assms(2) obtain c s' where s: "s = c # s'" "0x80 \<le> byte c"
      by (cases s; cases q) auto
    then have na: "\<not> asciiSpace c" by (auto simp: asciiSpace_def)
    from 2 assms(2) obtain q' where q': "find (\<lambda>q. prefix q s) unicodeSpaces = Some q'"
      "prefix q' s" "q' \<in> set unicodeSpaces"
      by (rule find_prefix_Some [where P = "\<lambda>q. prefix q s"])
    then have "spaceSeq q'" by (simp add: spaceSeq_def)
    with assms q' have "length q' = length q" by (intro spaceSeq_prefix_unique)
    with s na q' show ?thesis by (simp add: spaceLen_def)
  qed
qed

lemma spaceLen_pos:
  assumes "spaceLen s \<noteq> 0"
  obtains q where "spaceSeq q" "prefix q s" "spaceLen s = length q"
proof -
  from assms obtain c s' where s: "s = c # s'" by (cases s) (auto simp: spaceLen_def)
  show ?thesis
  proof (cases "asciiSpace c")
    case True
    with s have "spaceSeq [c]" "prefix [c] s" "spaceLen s = length [c]"
      by (auto simp: spaceSeq_def spaceLen_def)
    then show ?thesis by (rule that)
  next
    case False
    with s assms obtain q where "find (\<lambda>q. prefix q s) unicodeSpaces = Some q"
      by (auto simp: spaceLen_def split: option.splits)
    with s False have "spaceSeq q" "prefix q s" "spaceLen s = length q"
      by (auto simp: spaceSeq_def spaceLen_def dest: find_SomeD)
    then show ?thesis by (rule that)
  qed
qed

lemma spaceLenR_pos:
  assumes "spaceLenR s \<noteq> 0"
  obtains q where "spaceSeq q" "suffix q s" "spaceLenR s = length q"
proof -
  from assms have ne: "s \<noteq> []" by (auto simp: spaceLenR_def)
  show ?thesis
  proof (cases "asciiSpace (last s)")
    case True
    with ne have "spaceSeq [last s]" "suffix [last s] s" "spaceLenR s = length [last s]"
      by (auto simp: spaceSeq_def spaceLenR_def suffix_def intro: exI [of _ "butlast s"])
    then show ?thesis by (rule that)
  next
    case False
    with ne assms obtain q where "find (\<lambda>q. suffix q s) unicodeSpaces = Some q"
      by (auto simp: spaceLenR_def split: option.splits)
    with ne False have "spaceSeq q" "suffix q s" "spaceLenR s = length q"
      by (auto simp: spaceSeq_def spaceLenR_def dest: find_SomeD)
    then show ?thesis by (rule that)
  qed
qed

section \<open>Trimming\<close>

lemma spaceLen_ascii: "asciiSpace c \<Longrightarrow> spaceLen (c # s) = 1"
  by (simp add: spaceLen_def)

lemma spaceLen_not_lead:
  assumes "\<not> asciiSpace c" "byte c < 0x80 \<or> contByte c"
  shows "spaceLen (c # s) = 0"
proof (rule ccontr)
  assume "spaceLen (c # s) \<noteq> 0"
  then obtain q where q: "spaceSeq q" "prefix q (c # s)" by (rule spaceLen_pos)
  then have "q \<noteq> []" by (auto dest: spaceSeq_shape)
  with q(2) have hd: "hd q = c" by (cases q) auto
  from q(1) consider d where "q = [d]" "asciiSpace d" | "q \<in> set unicodeSpaces"
    by (auto simp: spaceSeq_def split: list.splits)
  then show False
  proof cases
    case 1
    with hd assms show False by simp
  next
    case 2
    with hd assms unicodeSpaces_shape [of q] show False by auto
  qed
qed

lemma spaceLenR_ascii: "asciiSpace c \<Longrightarrow> spaceLenR (s @ [c]) = 1"
  by (simp add: spaceLenR_def)

lemma spaceLenR_not_ascii:
  assumes "\<not> asciiSpace c" "byte c < 0x80"
  shows "spaceLenR (s @ [c]) = 0"
proof (rule ccontr)
  assume "spaceLenR (s @ [c]) \<noteq> 0"
  then obtain q where q: "spaceSeq q" "suffix q (s @ [c])" by (rule spaceLenR_pos)
  then have ne: "q \<noteq> []" by (auto dest: spaceSeq_shape)
  with q(2) have l: "last q = c" by (auto simp: suffix_def) (metis last_appendR last_snoc)
  from q(1) consider d where "q = [d]" "asciiSpace d" | "q \<in> set unicodeSpaces"
    by (auto simp: spaceSeq_def split: list.splits)
  then show False
  proof cases
    case 1
    with l assms show False by simp
  next
    case 2
    then have "0x80 \<le> byte (hd q)" "list_all contByte (tl q)"
      by (auto dest: unicodeSpaces_shape)
    with ne l have "0x80 \<le> byte c"
      by (cases q) (auto simp: list_all_iff contByte_def split: if_splits)
    with assms show False by simp
  qed
qed

lemma TrimLeftSpace_fix: "spaceLen s = 0 \<Longrightarrow> TrimLeftSpace s = s"
  by (simp add: TrimLeftSpace.simps)

lemma TrimRightSpace_fix: "spaceLenR s = 0 \<Longrightarrow> TrimRightSpace s = s"
  by (simp add: TrimRightSpace.simps)

lemma TrimLeftSpace_ascii: "list_all asciiSpace w \<Longrightarrow> TrimLeftSpace (w @ s) = TrimLeftSpace s"
proof (induction w)
  case Nil
  show ?case by simp
next
  case (Cons c w)
  then have "spaceLen ((c # w) @ s) = 1" by (simp add: spaceLen_ascii)
  then have "TrimLeftSpace ((c # w) @ s) = TrimLeftSpace (w @ s)"
    by (subst TrimLeftSpace.simps) simp
  with Cons show ?case by simp
qed

lemma TrimRightSpace_ascii: "list_all asciiSpace w \<Longrightarrow> TrimRightSpace (s @ w) = TrimRightSpace s"
proof (induction w rule: rev_induct)
  case Nil
  show ?case by simp
next
  case (snoc c w)
  then have "spaceLenR ((s @ w) @ [c]) = 1" by (intro spaceLenR_ascii) simp
  then have "TrimRightSpace ((s @ w) @ [c]) = TrimRightSpace (s @ w)"
    by (subst TrimRightSpace.simps) simp
  with snoc show ?case by simp
qed

lemma spaceLen_TrimLeftSpace: "spaceLen (TrimLeftSpace s) = 0"
proof (induction s rule: TrimLeftSpace.induct)
  case (1 s)
  then show ?case by (cases "spaceLen s = 0") (simp_all add: TrimLeftSpace.simps [of s])
qed

lemma spaceLenR_TrimRightSpace: "spaceLenR (TrimRightSpace s) = 0"
proof (induction s rule: TrimRightSpace.induct)
  case (1 s)
  then show ?case by (cases "spaceLenR s = 0") (simp_all add: TrimRightSpace.simps [of s])
qed

lemma suffix_TrimLeftSpace: "suffix (TrimLeftSpace s) s"
proof (induction s rule: TrimLeftSpace.induct)
  case (1 s)
  show ?case
  proof (cases "spaceLen s = 0")
    case True
    then show ?thesis by (simp add: TrimLeftSpace.simps [of s])
  next
    case False
    with 1 have "suffix (TrimLeftSpace s) (drop (spaceLen s) s)"
      by (simp add: TrimLeftSpace.simps [of s])
    then show ?thesis using suffix_drop suffix_order.trans by blast
  qed
qed

lemma prefix_TrimRightSpace: "prefix (TrimRightSpace s) s"
proof (induction s rule: TrimRightSpace.induct)
  case (1 s)
  show ?case
  proof (cases "spaceLenR s = 0")
    case True
    then show ?thesis by (simp add: TrimRightSpace.simps [of s])
  next
    case False
    with 1 have "prefix (TrimRightSpace s) (take (length s - spaceLenR s) s)"
      by (simp add: TrimRightSpace.simps [of s])
    then show ?thesis using take_is_prefix prefix_order.trans by blast
  qed
qed

lemma spaceLen_prefix_mono:
  assumes "spaceLen p \<noteq> 0" "prefix p s"
  shows "spaceLen s \<noteq> 0"
proof -
  from assms(1) obtain q where q: "spaceSeq q" "prefix q p" by (rule spaceLen_pos)
  with assms(2) have "prefix q s" by auto
  with q(1) have "spaceLen s = length q" by (rule spaceLen_prefix)
  with q(1) show ?thesis by (auto dest: spaceSeq_shape)
qed

lemma spaceLen_TrimSpace: "spaceLen (TrimSpace s) = 0"
  unfolding TrimSpace_def
  using spaceLen_prefix_mono [OF _ prefix_TrimRightSpace, of "TrimLeftSpace s"]
    spaceLen_TrimLeftSpace [of s]
  by auto

lemma spaceLenR_TrimSpace: "spaceLenR (TrimSpace s) = 0"
  by (simp add: TrimSpace_def spaceLenR_TrimRightSpace)

lemma set_TrimSpace: "set (TrimSpace s) \<subseteq> set s"
proof -
  have "set (TrimSpace s) \<subseteq> set (TrimLeftSpace s)"
    unfolding TrimSpace_def by (rule set_mono_prefix) (rule prefix_TrimRightSpace)
  also have "\<dots> \<subseteq> set s" by (rule set_mono_suffix) (rule suffix_TrimLeftSpace)
  finally show ?thesis .
qed

lemma nameClass_ascii: "nameClass c \<Longrightarrow> byte c < 0x80"
  by (auto simp: nameClass_def perlSpace_def)

lemma nameClass_not_comma: "nameClass c \<Longrightarrow> c \<noteq> CHR '',''"
  using comma_not_nameClass by auto

lemma asciiLetter_nameClass: "asciiLetter c \<Longrightarrow> nameClass c"
  by (auto simp: asciiLetter_def nameClass_def)

lemma asciiLetter_not_space: "asciiLetter c \<Longrightarrow> \<not> asciiSpace c"
  by (auto simp: asciiLetter_def asciiSpace_def)

lemma nameChar_nameClass: "nameChar c \<Longrightarrow> nameClass c"
  by (auto simp: nameChar_def asciiLetter_def nameClass_def)

lemma TrimPrefix_comma: "TrimPrefix (CHR '','' # w) '','' = w"
  by (simp add: TrimPrefix_def HasPrefix_def)

lemma TrimPrefix_no_comma: "w \<noteq> [] \<Longrightarrow> hd w \<noteq> CHR '','' \<Longrightarrow> TrimPrefix w '','' = w"
  by (cases w) (auto simp: TrimPrefix_def HasPrefix_def)

lemma TrimSuffix_append: "TrimSuffix (p @ v) v = p"
  by (simp add: TrimSuffix_def HasSuffix_def)

lemma spaceLen_append:
  assumes "spaceLen r = 0" "r \<noteq> []" "b = [] \<or> \<not> contByte (hd b)"
  shows "spaceLen (r @ b) = 0"
proof (rule ccontr)
  assume "spaceLen (r @ b) \<noteq> 0"
  then obtain q where q: "spaceSeq q" "prefix q (r @ b)" by (rule spaceLen_pos)
  have "prefix q r \<or> (\<exists>us. q = r @ us \<and> prefix us b \<and> us \<noteq> [])"
  proof (cases "prefix q r")
    case False
    with q(2) obtain us where us: "q = r @ us" "prefix us b" by (auto simp: prefix_append)
    with False have "us \<noteq> []" by auto
    with us show ?thesis by blast
  qed simp
  then consider "prefix q r" | us where "q = r @ us" "prefix us b" "us \<noteq> []"
    by blast
  then show False
  proof cases
    case 1
    with q(1) have "spaceLen r = length q" by (rule spaceLen_prefix)
    with q(1) assms(1) show False by (auto dest: spaceSeq_shape)
  next
    case 2
    with assms(2) have "hd us \<in> set (tl q)" by (cases r; cases us) auto
    moreover from q(1) have "list_all contByte (tl q)" by (auto dest: spaceSeq_shape)
    ultimately have "contByte (hd us)" by (simp add: list_all_iff)
    moreover from 2 have "b \<noteq> []" "hd us = hd b" by (cases us; cases b; auto)+
    ultimately show False using assms(3) by simp
  qed
qed

lemma TrimSpace_snoc_space:
  assumes "spaceLen r = 0" "spaceLenR r = 0"
  shows "TrimSpace (r @ '' '') = r"
proof (cases "r = []")
  case True
  have "TrimLeftSpace ('' '' @ []) = TrimLeftSpace []"
    by (rule TrimLeftSpace_ascii) (simp add: asciiSpace_def)
  then have "TrimLeftSpace '' '' = []" by (simp add: TrimLeftSpace_fix spaceLen_def)
  with True show ?thesis by (simp add: TrimSpace_def TrimRightSpace_fix spaceLenR_def)
next
  case False
  with assms(1) have "spaceLen (r @ '' '') = 0"
    by (intro spaceLen_append) (simp_all add: contByte_def)
  then have "TrimLeftSpace (r @ '' '') = r @ '' ''" by (rule TrimLeftSpace_fix)
  moreover have "TrimRightSpace (r @ '' '') = TrimRightSpace r"
    by (rule TrimRightSpace_ascii) (simp add: asciiSpace_def)
  ultimately show ?thesis using assms(2) by (simp add: TrimSpace_def TrimRightSpace_fix)
qed

lemma matchesHere_FindString:
  "matchesHere s \<Longrightarrow> FindString surnamePrecedes s = s"
  by (cases s) (simp_all add: FindString_Nil FindString_surnamePrecedes_Cons)

lemma Reorder_fixed:
  assumes "list_all nameClass r" "spaceLen r = 0" "spaceLenR r = 0"
  shows "ReorderSDNName r t = r"
proof (cases "r = [] \<or> \<not> EqualFold t ''individual''")
  case True
  then show ?thesis by (auto simp: ReorderSDNName_def FindString_Nil)
next
  case False
  with assms(1) have "matchesHere r" by (simp add: matchesHere_def)
  then have v: "FindString surnamePrecedes r = r" by (rule matchesHere_FindString)
  from False assms(1) have "hd r \<noteq> CHR '',''"
    by (cases r) (auto dest: nameClass_not_comma)
  with False have "TrimPrefix r '','' = r" by (intro TrimPrefix_no_comma) simp_all
  moreover have "TrimSuffix r r = []" using TrimSuffix_append [of "[]" r] by simp
  ultimately show ?thesis
    using False v assms(2,3) by (simp add: ReorderSDNName_def TrimSpace_snoc_space)
qed

section \<open>The two outcomes of a call on an individual\<close>

lemma Reorder_cases [consumes 1, case_names same moved]:
  assumes "EqualFold t ''individual''"
  obtains (same) "FindString surnamePrecedes n = []" "ReorderSDNName n t = n"
  | (moved) p c w where "n = p @ c @ w" "c = [] \<or> c = '',''" "w \<noteq> []" "list_all nameClass w"
      "c = [] \<Longrightarrow> p = [] \<or> (\<not> nameClass (last p) \<and> last p \<noteq> CHR '','')"
      "FindString surnamePrecedes n = c @ w" "TrimPrefix (c @ w) '','' = w"
      "TrimSuffix n (c @ w) = p"
      "ReorderSDNName n t = TrimSpace (w @ '' '' @ p)"
proof -
  from FindString_sp_shape [of n] consider
      (N) "FindString surnamePrecedes n = []"
    | (P) p w where "n = p @ w" "FindString surnamePrecedes n = w" "w \<noteq> []"
        "list_all nameClass w" "p = [] \<or> (\<not> nameClass (last p) \<and> last p \<noteq> CHR '','')"
    | (C) p w where "n = p @ CHR '','' # w" "FindString surnamePrecedes n = CHR '','' # w"
        "w \<noteq> []" "list_all nameClass w"
    by blast
  then show ?thesis
  proof cases
    case N
    with assms show ?thesis by (intro same) (simp_all add: ReorderSDNName_def)
  next
    case P
    then have "hd w \<noteq> CHR '',''" by (cases w) (auto dest: nameClass_not_comma)
    with P have tp: "TrimPrefix w '','' = w" by (intro TrimPrefix_no_comma)
    from P have ts: "TrimSuffix n w = p" by (simp add: TrimSuffix_append)
    from assms P tp ts have "ReorderSDNName n t = TrimSpace (w @ '' '' @ p)"
      by (simp add: ReorderSDNName_def)
    with P tp ts show ?thesis by (intro moved [of p "[]" w]) simp_all
  next
    case C
    have tp: "TrimPrefix (CHR '','' # w) '','' = w" by (rule TrimPrefix_comma)
    from C have ts: "TrimSuffix n (CHR '','' # w) = p"
      using TrimSuffix_append [of p "CHR '','' # w"] by simp
    from assms C tp ts have "ReorderSDNName n t = TrimSpace (w @ '' '' @ p)"
      by (simp add: ReorderSDNName_def)
    with C tp ts show ?thesis by (intro moved [of p "'',''" w]) simp_all
  qed
qed

lemma TrimRightSpace_keeps_head:
  assumes "byte c < 0x80" "\<not> asciiSpace c"
  shows "s = c # y \<Longrightarrow> \<exists>z. TrimRightSpace s = c # z"
proof (induction s arbitrary: y rule: TrimRightSpace.induct)
  case (1 s)
  show ?case
  proof (cases "spaceLenR s = 0")
    case True
    with 1(2) show ?thesis by (simp add: TrimRightSpace_fix)
  next
    case False
    then obtain q where q: "spaceSeq q" "suffix q s" "spaceLenR s = length q"
      by (rule spaceLenR_pos)
    have "q \<noteq> c # y"
    proof
      assume "q = c # y"
      with q(1) consider "asciiSpace c" | "q \<in> set unicodeSpaces" "hd q = c"
        by (auto simp: spaceSeq_def split: list.splits)
      then show False
      proof cases
        case 1
        with assms show False by simp
      next
        case 2
        with assms unicodeSpaces_shape [of q] show False by auto
      qed
    qed
    with q(2) 1(2) have "suffix q y" by (auto simp: suffix_Cons)
    then have "length q \<le> length y" by (rule suffix_length_le)
    with 1(2) q(3) have t: "take (length s - spaceLenR s) s = c # take (length y - length q) y"
      by (simp add: Suc_diff_le)
    from False have "TrimRightSpace s = TrimRightSpace (take (length s - spaceLenR s) s)"
      by (subst TrimRightSpace.simps) simp
    with 1(1) [OF False t] show ?thesis by simp
  qed
qed

lemma TrimLeftSpace_keeps_last:
  assumes "byte c < 0x80" "\<not> asciiSpace c"
  shows "s = y @ [c] \<Longrightarrow> \<exists>z. TrimLeftSpace s = z @ [c]"
proof (induction s arbitrary: y rule: TrimLeftSpace.induct)
  case (1 s)
  show ?case
  proof (cases "spaceLen s = 0")
    case True
    with 1(2) show ?thesis by (simp add: TrimLeftSpace_fix)
  next
    case False
    then obtain q where q: "spaceSeq q" "prefix q s" "spaceLen s = length q"
      by (rule spaceLen_pos)
    have "q \<noteq> y @ [c]"
    proof
      assume e: "q = y @ [c]"
      with q(1) consider "asciiSpace c" "y = []" | "q \<in> set unicodeSpaces"
        by (auto simp: spaceSeq_def split: list.splits)
      then show False
      proof cases
        case 1
        with assms show False by simp
      next
        case 2
        then have "q \<noteq> []" "0x80 \<le> byte (hd q)" "list_all contByte (tl q)"
          by (auto dest: unicodeSpaces_shape)
        with e have "0x80 \<le> byte c"
          by (cases y) (auto simp: list_all_iff contByte_def)
        with assms show False by simp
      qed
    qed
    with q(2) 1(2) have "prefix q y" by auto
    then obtain y' where y: "y = q @ y'" by (auto simp: prefix_def)
    with 1(2) q(3) have t: "drop (spaceLen s) s = y' @ [c]" by simp
    from False have "TrimLeftSpace s = TrimLeftSpace (drop (spaceLen s) s)"
      by (subst TrimLeftSpace.simps) simp
    with 1(1) [OF False t] show ?thesis by simp
  qed
qed

lemma TrimSpace_keeps_last:
  assumes "byte c < 0x80" "\<not> asciiSpace c"
  shows "\<exists>z. TrimSpace (y @ [c]) = z @ [c]"
proof -
  from assms obtain z where "TrimLeftSpace (y @ [c]) = z @ [c]"
    using TrimLeftSpace_keeps_last [of c "y @ [c]" y] by auto
  moreover from assms have "spaceLenR (z @ [c]) = 0" by (intro spaceLenR_not_ascii) simp_all
  ultimately show ?thesis by (auto simp: TrimSpace_def TrimRightSpace_fix)
qed

lemma Reorder_no_match: "\<not> nameClass c \<Longrightarrow> ReorderSDNName (z @ [c]) t = z @ [c]"
  by (simp add: ReorderSDNName_def FindString_sp_empty_iff)

lemma nameChar_not_comma: "nameChar c \<Longrightarrow> c \<noteq> CHR '',''"
  by (auto dest: nameChar_nameClass nameClass_not_comma)

lemma hasNameSuffix_iff: "hasNameSuffix name \<longleftrightarrow> name \<noteq> [] \<and> nameChar (last name)"
proof
  assume "hasNameSuffix name"
  then obtain v where v: "suffix v name" "nameSuffix v"
    by (auto simp: hasNameSuffix_def list_ex_iff)
  then have ne: "v \<noteq> []" by (auto simp: nameSuffix_def)
  with v(2) have "nameChar (last v)"
    by (cases v) (auto simp: nameSuffix_def list_all_iff split: if_splits)
  moreover from v(1) ne have "name \<noteq> []" "last name = last v" by (auto simp: suffix_def)
  ultimately show "name \<noteq> [] \<and> nameChar (last name)" by simp
next
  assume a: "name \<noteq> [] \<and> nameChar (last name)"
  then have "suffix [last name] name" by (auto simp: suffix_def intro: exI [of _ "butlast name"])
  moreover from a have "nameSuffix [last name]"
    by (auto simp: nameSuffix_def dest: nameChar_not_comma)
  ultimately show "hasNameSuffix name" by (auto simp: hasNameSuffix_def list_ex_iff)
qed

section \<open>Content and the package state\<close>

lemma content_Nil: "content [] = []"
  by (simp add: content.simps)

lemma content_space: "spaceLen s \<noteq> 0 \<Longrightarrow> content s = content (drop (spaceLen s) s)"
  by (subst content.simps) (auto simp: spaceLen_def)

lemma content_Cons:
  "spaceLen (c # s) = 0 \<Longrightarrow> content (c # s) = (if c = CHR '','' then content s else c # content s)"
  by (subst content.simps) simp

lemma content_append:
  "b = [] \<or> \<not> contByte (hd b) \<Longrightarrow> content (a @ b) = content a @ content b"
proof (induction a rule: content.induct)
  case (1 a)
  show ?case
  proof (cases "a = []")
    case True
    then show ?thesis by (simp add: content_Nil)
  next
    case ne: False
    show ?thesis
    proof (cases "spaceLen a = 0")
      case False
      then obtain q where q: "spaceSeq q" "prefix q a" "spaceLen a = length q"
        by (rule spaceLen_pos)
      then have "prefix q (a @ b)" by auto
      with q(1) have "spaceLen (a @ b) = length q" by (rule spaceLen_prefix)
      with q(3) have n: "spaceLen (a @ b) = spaceLen a" by simp
      with False have "content (a @ b) = content (drop (spaceLen a) (a @ b))"
        using content_space [of "a @ b"] by simp
      also have "\<dots> = content (drop (spaceLen a) a @ b)"
        using spaceLen_le [of a] by simp
      also have "\<dots> = content (drop (spaceLen a) a) @ content b"
        using 1(1) [OF ne False 1(4)] .
      also have "\<dots> = content a @ content b" using content_space [OF False] by simp
      finally show ?thesis .
    next
      case True
      from ne obtain c a' where a: "a = c # a'" by (cases a) auto
      from True ne 1(4) have z: "spaceLen (a @ b) = 0" by (rule spaceLen_append)
      show ?thesis
      proof (cases "c = CHR '',''")
        case c: True
        with 1(2) [OF ne _ _ 1(4)] True a have "content (a' @ b) = content a' @ content b"
          by simp
        with a c z True show ?thesis by (simp add: content_Cons)
      next
        case c: False
        with 1(3) [OF ne _ _ 1(4)] True a have "content (a' @ b) = content a' @ content b"
          by simp
        with a c z True show ?thesis by (simp add: content_Cons)
      qed
    qed
  qed
qed

lemma content_spaceSeq: "spaceSeq q \<Longrightarrow> content q = []"
proof -
  assume q: "spaceSeq q"
  then have "spaceLen q = length q" by (rule spaceLen_prefix) simp
  moreover from q have "q \<noteq> []" by (auto dest: spaceSeq_shape)
  ultimately show ?thesis using content_space [of q] by (simp add: content_Nil)
qed

lemma content_TrimLeftSpace: "content (TrimLeftSpace s) = content s"
proof (induction s rule: TrimLeftSpace.induct)
  case (1 s)
  show ?case
  proof (cases "spaceLen s = 0")
    case True
    then show ?thesis by (simp add: TrimLeftSpace_fix)
  next
    case False
    then have "TrimLeftSpace s = TrimLeftSpace (drop (spaceLen s) s)"
      by (subst TrimLeftSpace.simps) simp
    moreover from False have "content s = content (drop (spaceLen s) s)"
      by (rule content_space)
    ultimately show ?thesis using 1 [OF False] by simp
  qed
qed

lemma content_TrimRightSpace: "content (TrimRightSpace s) = content s"
proof (induction s rule: TrimRightSpace.induct)
  case (1 s)
  show ?case
  proof (cases "spaceLenR s = 0")
    case True
    then show ?thesis by (simp add: TrimRightSpace_fix)
  next
    case False
    then obtain q where q: "spaceSeq q" "suffix q s" "spaceLenR s = length q"
      by (rule spaceLenR_pos)
    then obtain s' where s: "s = s' @ q" by (auto simp: suffix_def)
    from q(1) have "\<not> contByte (hd q)" by (auto dest: spaceSeq_shape)
    then have "content (s' @ q) = content s' @ content q" by (intro content_append) simp
    with q(1) s have "content s = content s'" by (simp add: content_spaceSeq)
    moreover from s q(3) have "take (length s - spaceLenR s) s = s'" by simp
    moreover from False have "TrimRightSpace s = TrimRightSpace (take (length s - spaceLenR s) s)"
      by (subst TrimRightSpace.simps) simp
    ultimately show ?thesis using 1 [OF False] by simp
  qed
qed

lemma content_TrimSpace: "content (TrimSpace s) = content s"
  by (simp add: TrimSpace_def content_TrimRightSpace content_TrimLeftSpace)

lemma ReorderSDNName_in_init:
  "ReorderSDNName_in package_init name tpe = (ReorderSDNName name tpe, package_init)"
  by (simp add: ReorderSDNName_in_def ReorderSDNName_def package_init_def Let_def)

lemma snd_ReorderSDNName_in: "snd (ReorderSDNName_in g name tpe) = g"
  by (simp add: ReorderSDNName_in_def Let_def)

lemma calls_init:
  "calls package_init cs = (map (\<lambda>(name, tpe). ReorderSDNName name tpe) cs, package_init)"
  by (induction cs) (auto simp: ReorderSDNName_in_init)

section \<open>Properties of ReorderSDNName\<close>

text \<open>
  C1. The literal cases: \<open>ReorderSDNName("MADURO MOROS, Nicolas", "individual")\<close> is
  \<open>"Nicolas MADURO MOROS"\<close>; \<open>"FELIX B. MADURO S.A."\<close> with any type that is not
  \<open>individual\<close> up to case comes back unchanged; \<open>ReorderSDNName("Doe", "individual")\<close>
  is \<open>"Doe"\<close>.
\<close>

theorem literal_cases:
  "ReorderSDNName ''MADURO MOROS, Nicolas'' ''individual'' = ''Nicolas MADURO MOROS''
   \<and> (map asciiLower t \<noteq> ''individual'' \<longrightarrow>
        ReorderSDNName ''FELIX B. MADURO S.A.'' t = ''FELIX B. MADURO S.A.'')
   \<and> ReorderSDNName ''Doe'' ''individual'' = ''Doe''"
proof (intro conjI impI)
  show "ReorderSDNName ''MADURO MOROS, Nicolas'' ''individual'' = ''Nicolas MADURO MOROS''"
    by code_simp
  show "ReorderSDNName ''Doe'' ''individual'' = ''Doe''"
    by code_simp
  assume "map asciiLower t \<noteq> ''individual''"
  then show "ReorderSDNName ''FELIX B. MADURO S.A.'' t = ''FELIX B. MADURO S.A.''"
    by (simp add: ReorderSDNName_def EqualFold_individual)
qed

theorem literal_cases_witness:
  "map asciiLower ''Organization'' \<noteq> ''individual''
   \<and> ReorderSDNName ''FELIX B. MADURO S.A.'' ''Organization'' = ''FELIX B. MADURO S.A.''"
  using literal_cases [of "''Organization''"] by simp

text \<open>
  C2. For every name and every type that is not \<open>individual\<close> up to case, the name is
  returned unchanged: only individuals are reordered.
\<close>

theorem other_types_unchanged:
  "map asciiLower t \<noteq> ''individual'' \<Longrightarrow> ReorderSDNName n t = n"
  by (simp add: ReorderSDNName_def EqualFold_individual)

theorem other_types_unchanged_witness:
  "map asciiLower ''vessel'' \<noteq> ''individual''
   \<and> ReorderSDNName ''MADURO MOROS, Nicolas'' ''vessel'' = ''MADURO MOROS, Nicolas''"
  using other_types_unchanged [of "''vessel''" "''MADURO MOROS, Nicolas''"] by simp

text \<open>
  C3. As stated it fails: the bracket expression of the pattern holds the question mark
  besides letters, white space and the period, so \<open>"Doe, John?"\<close> is matched with the
  suffix \<open>", John?"\<close> and rewritten; and its letters are \<open>a-z\<close> and \<open>A-Z\<close> only,
  so \<open>"Doe, Jos"\<close> followed by U+00E9 (bytes C3 A9) is not matched. What holds, for
  type \<open>individual\<close> and a name without a question mark: the pattern matches, and the
  name is rewritten, exactly when the name has a non-empty suffix made of an optional
  comma and then one or more of the letters \<open>a-z\<close>, \<open>A-Z\<close>, the white space of \<open>\s\<close>
  and the period; a name that does not end in one of these characters is returned
  unchanged; the matched text is a suffix of the name and, behind its optional comma,
  holds these characters only.
\<close>

theorem pattern_on_names_without_question_mark:
  assumes "map asciiLower t = ''individual''" "CHR ''?'' \<notin> set name"
  shows "(FindString surnamePrecedes name \<noteq> []) = hasNameSuffix name
    \<and> ReorderSDNName name t =
        (if hasNameSuffix name
         then TrimSpace (TrimPrefix (FindString surnamePrecedes name) '','' @ '' ''
                         @ TrimSuffix name (FindString surnamePrecedes name))
         else name)
    \<and> (if name \<noteq> [] \<and> nameChar (last name) then hasNameSuffix name
        else ReorderSDNName name t = name)
    \<and> suffix (FindString surnamePrecedes name) name
    \<and> list_all nameChar (TrimPrefix (FindString surnamePrecedes name) '','')"
proof -
  let ?v = "FindString surnamePrecedes name"
  from assms(1) have t: "EqualFold t ''individual''" by (simp add: EqualFold_individual)
  from assms(2) have m: "?v \<noteq> [] \<longleftrightarrow> hasNameSuffix name"
    by (simp add: pattern_without_question_mark(1) hasNameSuffix_iff)
  from t m have r: "ReorderSDNName name t =
        (if hasNameSuffix name
         then TrimSpace (TrimPrefix ?v '','' @ '' '' @ TrimSuffix name ?v) else name)"
    by (auto simp: ReorderSDNName_def Let_def)
  from m r have u: "if name \<noteq> [] \<and> nameChar (last name) then hasNameSuffix name
        else ReorderSDNName name t = name"
    by (simp add: hasNameSuffix_iff)
  have s: "suffix ?v name" by (rule FindString_sp_suffix)
  have c: "list_all nameChar (TrimPrefix ?v '','')"
  proof (cases "?v = []")
    case True
    then show ?thesis by (simp add: TrimPrefix_def HasPrefix_def)
  next
    case False
    from t show ?thesis
    proof (cases rule: Reorder_cases [where n = name])
      case same
      with False show ?thesis by simp
    next
      case (moved p c w)
      have "nameChar x" if "x \<in> set w" for x
      proof -
        from that moved(6) have "x \<in> set ?v" by simp
        with pattern_without_question_mark(2) [OF assms(2)] have "nameChar x \<or> x = CHR '',''" .
        moreover from that moved(4) have "x \<noteq> CHR '',''"
          by (auto simp: list_all_iff dest: nameClass_not_comma)
        ultimately show ?thesis by simp
      qed
      with moved(6,7) show ?thesis by (simp add: list_all_iff)
    qed
  qed
  from m r u s c show ?thesis by blast
qed

theorem pattern_on_names_without_question_mark_witness:
  "map asciiLower ''individual'' = ''individual''
   \<and> CHR ''?'' \<notin> set ''MADURO MOROS, Nicolas''
   \<and> FindString surnamePrecedes ''MADURO MOROS, Nicolas'' = '', Nicolas''
   \<and> hasNameSuffix ''MADURO MOROS, Nicolas''
   \<and> ReorderSDNName ''MADURO MOROS, Nicolas'' ''individual'' =
       TrimSpace (TrimPrefix '', Nicolas'' '','' @ '' ''
                  @ TrimSuffix ''MADURO MOROS, Nicolas'' '', Nicolas'')
   \<and> list_all nameChar (TrimPrefix '', Nicolas'' '','')
   \<and> CHR ''?'' \<notin> set ''Doe 3''
   \<and> \<not> hasNameSuffix ''Doe 3''
   \<and> ReorderSDNName ''Doe 3'' ''individual'' = ''Doe 3''"
proof -
  have a: "map asciiLower ''individual'' = ''individual''" by code_simp
  have q: "CHR ''?'' \<notin> set ''MADURO MOROS, Nicolas''" "CHR ''?'' \<notin> set ''Doe 3''" by simp_all
  have v: "FindString surnamePrecedes ''MADURO MOROS, Nicolas'' = '', Nicolas''" by code_simp
  have h: "hasNameSuffix ''MADURO MOROS, Nicolas''" "\<not> hasNameSuffix ''Doe 3''"
    by (simp_all add: hasNameSuffix_iff nameChar_def asciiLetter_def perlSpace_def)
  note 1 = pattern_on_names_without_question_mark [OF a q(1), unfolded v if_P [OF h(1)]]
  note 2 = pattern_on_names_without_question_mark [OF a q(2), unfolded if_not_P [OF h(2)]]
  from a q v h 1 2 show ?thesis by blast
qed

theorem pattern_counterexample:
  "FindString surnamePrecedes ''Doe, John?'' = '', John?''
   \<and> ReorderSDNName ''Doe, John?'' ''individual'' = ''John? Doe''
   \<and> ReorderSDNName (''Doe, Jos'' @ [CHR 0xC3, CHR 0xA9]) ''individual''
       = ''Doe, Jos'' @ [CHR 0xC3, CHR 0xA9]"
  by code_simp

text \<open>
  C4. As stated, idempotence for every name and type, it fails: \<open>"a, b, c"\<close> gives
  \<open>"c a, b"\<close>, and that gives \<open>"b c a"\<close>. What holds: a second call changes
  nothing when the type is not \<open>individual\<close> up to case, and, for an individual, when
  the name is made of letters, white space and periods with at most one comma, or is
  ASCII text with neither a comma nor a vertical tab.
\<close>

theorem idempotent_on_plain_names:
  assumes "map asciiLower t \<noteq> ''individual''
     \<or> (list_all (\<lambda>c. nameChar c \<or> c = CHR '','') n \<and> length (filter (\<lambda>c. c = CHR '','') n) \<le> 1)
     \<or> list_all (\<lambda>c. byte c < 0x80 \<and> byte c \<noteq> 0x0B \<and> c \<noteq> CHR '','') n"
  shows "ReorderSDNName (ReorderSDNName n t) t = ReorderSDNName n t"
proof (cases "EqualFold t ''individual''")
  case False
  then show ?thesis by (simp add: ReorderSDNName_def)
next
  case True
  with assms consider
      (plain) "list_all (\<lambda>c. nameChar c \<or> c = CHR '','') n"
        "length (filter (\<lambda>c. c = CHR '','') n) \<le> 1"
    | (ascii) "list_all (\<lambda>c. byte c < 0x80 \<and> byte c \<noteq> 0x0B \<and> c \<noteq> CHR '','') n"
    by (auto simp: EqualFold_individual)
  note shape = this
  from True show ?thesis
  proof (cases rule: Reorder_cases [where n = n])
    case same
    then show ?thesis by simp
  next
    case (moved p c w)
    have "list_all nameClass p
      \<or> (p \<noteq> [] \<and> byte (last p) < 0x80 \<and> \<not> asciiSpace (last p) \<and> \<not> nameClass (last p))"
    proof (cases "c = []")
      case False
      with moved(2) have c: "c = '',''" by simp
      from shape show ?thesis
      proof cases
        case plain
        with moved(1) c have "filter (\<lambda>c. c = CHR '','') p = []" by simp
        then have "\<forall>x\<in>set p. x \<noteq> CHR '',''" by (simp add: filter_empty_conv)
        moreover from plain(1) moved(1) have "\<forall>x\<in>set p. nameChar x \<or> x = CHR '',''"
          by (simp add: list_all_iff)
        ultimately show ?thesis by (auto simp: list_all_iff dest: nameChar_nameClass)
      next
        case ascii
        with moved(1) c show ?thesis by simp
      qed
    next
      case True
      show ?thesis
      proof (cases "p = []")
        case False
        with moved(5) True have l: "\<not> nameClass (last p)" "last p \<noteq> CHR '',''" by simp_all
        from False moved(1) have m: "last p \<in> set n" by simp
        from shape show ?thesis
        proof cases
          case plain
          with m have "nameChar (last p) \<or> last p = CHR '',''" by (simp add: list_all_iff)
          with l show ?thesis by (auto dest: nameChar_nameClass)
        next
          case ascii
          with m have a: "byte (last p) < 0x80" "byte (last p) \<noteq> 0x0B"
            by (simp_all add: list_all_iff)
          with l(1) have "\<not> asciiSpace (last p)"
            by (auto simp: asciiSpace_def nameClass_def perlSpace_def)
          with False a l show ?thesis by simp
        qed
      qed simp
    qed
    then show ?thesis
    proof
      assume p: "list_all nameClass p"
      have sp: "nameClass (CHR '' '')" by (simp add: nameClass_def perlSpace_def)
      from p moved(4) sp have "list_all nameClass (w @ '' '' @ p)" by simp
      with set_TrimSpace [of "w @ '' '' @ p"] moved(9)
      have "list_all nameClass (ReorderSDNName n t)" by (auto simp: list_all_iff)
      moreover from moved(9) have "spaceLen (ReorderSDNName n t) = 0"
        "spaceLenR (ReorderSDNName n t) = 0"
        by (simp_all add: spaceLen_TrimSpace spaceLenR_TrimSpace)
      ultimately show ?thesis by (rule Reorder_fixed)
    next
      assume p: "p \<noteq> [] \<and> byte (last p) < 0x80 \<and> \<not> asciiSpace (last p) \<and> \<not> nameClass (last p)"
      then have "w @ '' '' @ p = (w @ '' '' @ butlast p) @ [last p]" by simp
      with p obtain z where "TrimSpace (w @ '' '' @ p) = z @ [last p]"
        using TrimSpace_keeps_last [of "last p" "w @ '' '' @ butlast p"] by auto
      with moved(9) p show ?thesis by (simp add: Reorder_no_match)
    qed
  qed
qed

theorem idempotent_on_plain_names_witness:
  "list_all (\<lambda>c. nameChar c \<or> c = CHR '','') ''MADURO MOROS, Nicolas''
   \<and> length (filter (\<lambda>c. c = CHR '','') ''MADURO MOROS, Nicolas'') \<le> 1
   \<and> ReorderSDNName (ReorderSDNName ''MADURO MOROS, Nicolas'' ''individual'') ''individual''
       = ReorderSDNName ''MADURO MOROS, Nicolas'' ''individual''
   \<and> list_all (\<lambda>c. byte c < 0x80 \<and> byte c \<noteq> 0x0B \<and> c \<noteq> CHR '','') ''Doe 3rd John''
   \<and> ReorderSDNName (ReorderSDNName ''Doe 3rd John'' ''individual'') ''individual''
       = ReorderSDNName ''Doe 3rd John'' ''individual''
   \<and> map asciiLower ''vessel'' \<noteq> ''individual''
   \<and> ReorderSDNName (ReorderSDNName ''a, b, c'' ''vessel'') ''vessel''
       = ReorderSDNName ''a, b, c'' ''vessel''"
proof -
  have h: "list_all (\<lambda>c. nameChar c \<or> c = CHR '','') ''MADURO MOROS, Nicolas''
        \<and> length (filter (\<lambda>c. c = CHR '','') ''MADURO MOROS, Nicolas'') \<le> 1"
    by (simp add: nameChar_def asciiLetter_def perlSpace_def)
  have a: "list_all (\<lambda>c. byte c < 0x80 \<and> byte c \<noteq> 0x0B \<and> c \<noteq> CHR '','') ''Doe 3rd John''"
    by simp
  have v: "map asciiLower ''vessel'' \<noteq> ''individual''" by simp
  from h a v show ?thesis
    using idempotent_on_plain_names [of "''individual''" "''MADURO MOROS, Nicolas''"]
      idempotent_on_plain_names [of "''individual''" "''Doe 3rd John''"]
      idempotent_on_plain_names [of "''vessel''" "''a, b, c''"]
    by blast
qed

theorem idempotence_counterexample:
  "ReorderSDNName (ReorderSDNName ''a, b, c'' ''individual'') ''individual''
     \<noteq> ReorderSDNName ''a, b, c'' ''individual''"
  by code_simp

text \<open>
  C5. As stated, for every non-empty string of letters, it fails on letters beyond
  ASCII: the name M, U+00FC, l, l, e, r (the bytes of U+00FC are C3 BC) comes back as
  \<open>"ller M"\<close> followed by U+00FC. What holds: a non-empty string of the letters
  \<open>a-z\<close> and \<open>A-Z\<close> comes back unchanged for type \<open>individual\<close>.
\<close>

theorem single_token_unchanged:
  assumes "n \<noteq> []" "list_all asciiLetter n"
  shows "ReorderSDNName n ''individual'' = n"
proof (rule Reorder_fixed)
  from assms(2) show "list_all nameClass n"
    by (auto simp: list_all_iff dest: asciiLetter_nameClass)
  from assms obtain c s where "n = c # s" "asciiLetter c" by (cases n) auto
  then show "spaceLen n = 0"
    by (auto intro!: spaceLen_not_lead dest: asciiLetter_not_space asciiLetter_nameClass
        nameClass_ascii)
  from assms obtain s c where "n = s @ [c]" "asciiLetter c"
    by (cases n rule: rev_cases) auto
  then show "spaceLenR n = 0"
    by (auto intro!: spaceLenR_not_ascii dest: asciiLetter_not_space asciiLetter_nameClass
        nameClass_ascii)
qed

theorem single_token_unchanged_witness:
  "''Doe'' \<noteq> [] \<and> list_all asciiLetter ''Doe'' \<and> ReorderSDNName ''Doe'' ''individual'' = ''Doe''"
proof -
  have "list_all asciiLetter ''Doe''" by (simp add: asciiLetter_def)
  then show ?thesis using single_token_unchanged [of "''Doe''"] by simp
qed

theorem single_token_counterexample:
  "ReorderSDNName (''M'' @ [CHR 0xC3, CHR 0xBC] @ ''ller'') ''individual''
     = ''ller M'' @ [CHR 0xC3, CHR 0xBC]
   \<and> ReorderSDNName (''M'' @ [CHR 0xC3, CHR 0xBC] @ ''ller'') ''individual''
     \<noteq> ''M'' @ [CHR 0xC3, CHR 0xBC] @ ''ller''"
  by code_simp

text \<open>
  C6. When the pattern matches an individual's name with suffix \<open>v\<close>, the result is
  \<open>TrimSpace\<close> of \<open>v\<close> without its leading comma, one space, and the name without
  \<open>v\<close>; it neither begins nor ends with a white-space rune. That it never begins with
  a comma fails as stated: \<open>",1 "\<close> matches with \<open>v = " "\<close> and gives \<open>",1"\<close>.
  What holds: when \<open>v\<close> without its comma is white space only, the result is the
  trimmed rest of the name; otherwise the result does not begin with a comma.
\<close>

theorem rewrite_form:
  assumes "map asciiLower t = ''individual''" "FindString surnamePrecedes name = v" "v \<noteq> []"
  shows "ReorderSDNName name t = TrimSpace (TrimPrefix v '','' @ '' '' @ TrimSuffix name v)
    \<and> spaceLen (ReorderSDNName name t) = 0 \<and> spaceLenR (ReorderSDNName name t) = 0
    \<and> (if list_all asciiSpace (TrimPrefix v '','')
        then ReorderSDNName name t = TrimSpace (TrimSuffix name v)
        else take 1 (ReorderSDNName name t) \<noteq> '','')"
proof -
  from assms(1) have "EqualFold t ''individual''" by (simp add: EqualFold_individual)
  then show ?thesis
  proof (cases rule: Reorder_cases [where n = name])
    case same
    with assms show ?thesis by simp
  next
    case (moved p c w)
    with assms(2) have v: "v = c @ w" by simp
    let ?r = "ReorderSDNName name t"
    from moved v have r: "?r = TrimSpace (TrimPrefix v '','' @ '' '' @ TrimSuffix name v)"
      by simp
    from moved(9) have ws: "spaceLen ?r = 0" "spaceLenR ?r = 0"
      by (simp_all add: spaceLen_TrimSpace spaceLenR_TrimSpace)
    have "if list_all asciiSpace w then ?r = TrimSpace p else take 1 ?r \<noteq> '',''"
    proof (cases "list_all asciiSpace w")
      case True
      then have "list_all asciiSpace (w @ '' '')" by (simp add: asciiSpace_def)
      then have "TrimLeftSpace ((w @ '' '') @ p) = TrimLeftSpace p"
        by (rule TrimLeftSpace_ascii)
      with True moved(9) show ?thesis by (simp add: TrimSpace_def)
    next
      case False
      then have "\<exists>x\<in>set w. \<not> asciiSpace x" by (simp add: list_all_iff)
      from split_list_first_prop [OF this]
      obtain ws x rest where w: "w = ws @ x # rest" "\<not> asciiSpace x"
        "\<forall>y\<in>set ws. asciiSpace y"
        by auto
      with moved(4) have x: "nameClass x" "list_all asciiSpace ws"
        by (simp_all add: list_all_iff)
      then have xa: "byte x < 0x80" "x \<noteq> CHR '',''"
        by (auto dest: nameClass_ascii nameClass_not_comma)
      from x(2) have "TrimLeftSpace (ws @ x # rest @ '' '' @ p) = TrimLeftSpace (x # rest @ '' '' @ p)"
        by (rule TrimLeftSpace_ascii)
      also from w(2) xa(1) have "\<dots> = x # rest @ '' '' @ p"
        by (intro TrimLeftSpace_fix spaceLen_not_lead) simp_all
      finally have "TrimLeftSpace (w @ '' '' @ p) = x # rest @ '' '' @ p" using w(1) by simp
      moreover from xa(1) w(2) obtain z where
        "TrimRightSpace (x # rest @ '' '' @ p) = x # z"
        using TrimRightSpace_keeps_head [of x "x # rest @ '' '' @ p" "rest @ '' '' @ p"] by auto
      ultimately have "?r = x # z" using moved(9) by (simp add: TrimSpace_def)
      with xa(2) False show ?thesis by simp
    qed
    moreover from moved(7,8) v have tp: "TrimPrefix v '','' = w" and ts: "TrimSuffix name v = p"
      by simp_all
    ultimately show ?thesis using moved(9) ws unfolding tp ts by blast
  qed
qed

theorem rewrite_form_witness:
  "map asciiLower ''individual'' = ''individual''
   \<and> FindString surnamePrecedes ''MADURO MOROS, Nicolas'' = '', Nicolas''
   \<and> ReorderSDNName ''MADURO MOROS, Nicolas'' ''individual''
       = TrimSpace (TrimPrefix '', Nicolas'' '','' @ '' ''
                    @ TrimSuffix ''MADURO MOROS, Nicolas'' '', Nicolas'')
   \<and> spaceLen (ReorderSDNName ''MADURO MOROS, Nicolas'' ''individual'') = 0
   \<and> spaceLenR (ReorderSDNName ''MADURO MOROS, Nicolas'' ''individual'') = 0
   \<and> take 1 (ReorderSDNName ''MADURO MOROS, Nicolas'' ''individual'') \<noteq> '',''"
proof -
  have a: "map asciiLower ''individual'' = ''individual''" by code_simp
  have b: "FindString surnamePrecedes ''MADURO MOROS, Nicolas'' = '', Nicolas''" by code_simp
  have c: "\<not> list_all asciiSpace (TrimPrefix '', Nicolas'' '','')" by code_simp
  have d: "'', Nicolas'' \<noteq> []" by simp
  note e = rewrite_form [OF a b d, unfolded if_not_P [OF c]]
  from a b e show ?thesis by blast
qed

theorem leading_comma_counterexample:
  "FindString surnamePrecedes '',1 '' = '' ''
   \<and> ReorderSDNName '',1 '' ''individual'' = '',1''
   \<and> take 1 (ReorderSDNName '',1 '' ''individual'') = '',''"
  by code_simp

text \<open>
  C7. The function is deterministic and pure: a call hands the package state back as it
  received it, and after any sequence of earlier calls a call returns what the function
  of its two arguments alone returns, so two calls with the same arguments agree
  whatever was called before them.
\<close>

theorem deterministic_and_pure:
  "snd (ReorderSDNName_in g name tpe) = g
   \<and> ReorderSDNName_in (snd (calls package_init before)) name tpe
       = (ReorderSDNName name tpe, package_init)
   \<and> fst (ReorderSDNName_in (snd (calls package_init before)) name tpe)
       = fst (ReorderSDNName_in (snd (calls package_init before')) name tpe)"
  by (simp add: snd_ReorderSDNName_in calls_init ReorderSDNName_in_init)

text \<open>
  C8. The type check ignores case: \<open>EqualFold\<close> against \<open>"individual"\<close> holds exactly
  for the spellings that lower-case to \<open>individual\<close>; each of them runs the reordering
  and gives the result of the spelling \<open>"individual"\<close>; every other type string gives
  the name back unchanged.
\<close>

theorem type_check_case_insensitive:
  "EqualFold t ''individual'' = (map asciiLower t = ''individual'')
   \<and> (map asciiLower t = ''individual'' \<longrightarrow>
        ReorderSDNName n t = ReorderSDNName n ''individual''
        \<and> ReorderSDNName n t =
            (let v = FindString surnamePrecedes n
             in if v = [] then n
                else TrimSpace (TrimPrefix v '','' @ '' '' @ TrimSuffix n v)))
   \<and> (map asciiLower t \<noteq> ''individual'' \<longrightarrow> ReorderSDNName n t = n)"
proof -
  have "EqualFold ''individual'' ''individual''" by (simp add: EqualFold_individual asciiLower_def)
  then show ?thesis by (simp add: ReorderSDNName_def EqualFold_individual)
qed

theorem type_check_case_insensitive_witness:
  "map asciiLower ''INDIVIDUAL'' = ''individual''
   \<and> map asciiLower ''Individual'' = ''individual''
   \<and> ReorderSDNName ''MADURO MOROS, Nicolas'' ''INDIVIDUAL'' = ''Nicolas MADURO MOROS''
   \<and> ReorderSDNName ''MADURO MOROS, Nicolas'' ''Individual'' = ''Nicolas MADURO MOROS''
   \<and> map asciiLower ''aircraft'' \<noteq> ''individual''
   \<and> ReorderSDNName ''MADURO MOROS, Nicolas'' ''aircraft'' = ''MADURO MOROS, Nicolas''"
proof -
  have r: "ReorderSDNName ''MADURO MOROS, Nicolas'' ''individual'' = ''Nicolas MADURO MOROS''"
    by code_simp
  have l: "map asciiLower ''INDIVIDUAL'' = ''individual''"
    "map asciiLower ''Individual'' = ''individual''"
    by code_simp+
  have a: "map asciiLower ''aircraft'' \<noteq> ''individual''" by simp
  show ?thesis
    using type_check_case_insensitive [of "''INDIVIDUAL''" "''MADURO MOROS, Nicolas''"]
      type_check_case_insensitive [of "''Individual''" "''MADURO MOROS, Nicolas''"]
      type_check_case_insensitive [of "''aircraft''" "''MADURO MOROS, Nicolas''"]
      r l a
    by simp
qed

text \<open>
  C9. The function is total (every function of the model is, with its termination
  proved, and the source has no failing branch to model), and the empty name comes
  back empty for every type.
\<close>

theorem empty_name: "(\<exists>r. ReorderSDNName n t = r) \<and> ReorderSDNName [] t = []"
  by (simp add: ReorderSDNName_def FindString_Nil)

text \<open>
  C10. The bytes of the result outside white space and commas are, as a multiset, those
  of the name: reordering adds, drops and alters no letter, digit or period.
\<close>

theorem content_preserved: "mset (content (ReorderSDNName n t)) = mset (content n)"
proof (cases "EqualFold t ''individual''")
  case False
  then show ?thesis by (simp add: ReorderSDNName_def)
next
  case True
  then show ?thesis
  proof (cases rule: Reorder_cases [where n = n])
    case same
    then show ?thesis by simp
  next
    case (moved p c w)
    have sp: "content ('' '' @ p) = content p"
      using content_space [of "'' '' @ p"] by (simp add: spaceLen_def asciiSpace_def)
    have "content (w @ '' '' @ p) = content w @ content ('' '' @ p)"
      by (rule content_append) (simp add: contByte_def)
    with sp have out: "content (w @ '' '' @ p) = content w @ content p" by simp
    from moved(3,4) have w: "nameClass (hd w)" by (cases w) auto
    have cw: "content (c @ w) = content w"
    proof (cases "c = []")
      case False
      with moved(2) have c: "c = '',''" by simp
      have "spaceLen (CHR '','' # w) = 0"
        by (rule spaceLen_not_lead) (simp_all add: asciiSpace_def)
      with c show ?thesis by (simp add: content_Cons)
    qed simp
    have "\<not> contByte (hd (c @ w))"
    proof (cases "c = []")
      case True
      with w show ?thesis by (auto dest: nameClass_ascii simp: contByte_def)
    next
      case False
      with moved(2) show ?thesis by (auto simp: contByte_def)
    qed
    then have "content (p @ c @ w) = content p @ content (c @ w)" by (intro content_append) simp
    with cw moved(1) have "content n = content p @ content w" by simp
    with out moved(9) show ?thesis by (simp add: content_TrimSpace)
  qed
qed

end
